theory Spec2Isabelle
  imports Complex_Main "HOL-Library.Log_Nat"
begin

section \<open>The RTSP video track of \<^verbatim>\<open>rtsp_to_webrtc_server.py\<close>\<close>

text \<open>
  The class \<^verbatim>\<open>RTSPVideoTrack\<close> is embedded as a record of its attributes and one
  function per method. Every method returns the updated record together with the list of
  effects it performed, in program order: calls on the OpenCV capture object, log records
  and sleeps. Everything the methods read from outside the object (the answers of the
  capture device, the frame it decodes, whether the colour conversion succeeds, the wall
  clock) is an input of the call.

  Wall-clock readings (\<^verbatim>\<open>time.time()\<close>, a double) are rationals, as every double is.
  Each float operation of the code is the exact operation followed by rounding to the
  nearest double (\<open>fl\<close> below).
\<close>

subsection \<open>Images and frames\<close>

datatype pixel_content = AllZero | Decoded

text \<open>A numpy array of shape \<^verbatim>\<open>(shape0, shape1, shape2)\<close>; the pixel values are abstracted
  to whether the array came from \<^verbatim>\<open>np.zeros\<close> or from the decoder.\<close>

datatype ndarray = NdArray (shape0: nat) (shape1: nat) (shape2: nat) (content: pixel_content)

definition nd_size :: "ndarray \<Rightarrow> nat" where
  "nd_size a = shape0 a * shape1 a * shape2 a"

definition np_zeros :: "nat \<Rightarrow> nat \<Rightarrow> nat \<Rightarrow> ndarray" where
  "np_zeros h w c = NdArray h w c AllZero"

text \<open>\<^verbatim>\<open>cv2.cvtColor(img, cv2.COLOR_BGR2RGB)\<close> on a three-channel image: the channels are
  reordered, the shape is kept.\<close>

definition cvtColor :: "ndarray \<Rightarrow> ndarray" where
  "cvtColor a = a"

record video_frame =
  planes :: ndarray
  pts :: "int option"
  time_base :: "rat option"

text \<open>\<^verbatim>\<open>VideoFrame.from_ndarray\<close>: a new frame with neither timestamp nor time base.\<close>

definition from_ndarray :: "ndarray \<Rightarrow> video_frame" where
  "from_ndarray a = \<lparr>planes = a, pts = None, time_base = None\<rparr>"

text \<open>Python's \<^verbatim>\<open>int(x)\<close> on a float truncates toward zero.\<close>

definition py_int :: "rat \<Rightarrow> int" where
  "py_int x = (if 0 \<le> x then \<lfloor>x\<rfloor> else \<lceil>x\<rceil>)"

subsection \<open>Double arithmetic\<close>

text \<open>Rounding to the nearest integer, ties to the even one.\<close>

definition rne :: "rat \<Rightarrow> int" where
  "rne y = (let f = \<lfloor>y\<rfloor>; r = y - of_int f
            in if r < 1 / 2 then f else if 1 / 2 < r then f + 1
               else if even f then f else f + 1)"

text \<open>The binary exponent of a positive rational \<open>x\<close>: the \<open>e\<close> with
  \<open>2 ^ e \<le> x < 2 ^ (e + 1)\<close>. The difference of the bit lengths of numerator and
  denominator is \<open>e\<close> or \<open>e + 1\<close>.\<close>

definition ilog2 :: "rat \<Rightarrow> int" where
  "ilog2 x = (case quotient_of x of
                (p, q) \<Rightarrow> let d = bitlen p - bitlen q in if 2 powi d \<le> x then d else d - 1)"

text \<open>
  The result of a double operation whose exact result is \<open>x\<close>: \<open>x\<close> rounded to 53
  significant bits, to nearest and ties to even (the IEEE 754 default, which Python's float
  arithmetic uses). The exponent range is not bounded: overflow and the subnormal range
  are outside the model. Clock readings are seconds since 1970, near \<open>2 ^ 30\<close>, and the
  stamps computed from them are far from both.
\<close>

definition fl :: "rat \<Rightarrow> rat" where
  "fl x = (if x = 0 then 0
           else let u = 2 powi (ilog2 \<bar>x\<bar> - 52) in of_int (rne (x / u)) * u)"

subsection \<open>Effects, exceptions and the inputs of a call\<close>

datatype level = DEBUG | INFO | WARNING | ERROR

datatype logmsg =
    Connecting
  | Connected nat nat
  | CouldNotOpen
  | NotStarted
  | ReadFailure nat
  | MaxFailures
  | SendingFrame nat
  | DimsUpdated nat nat
  | ProcessingError
  | TrackStopped

text \<open>Capture objects are identified by the order of their construction: \<open>Open c\<close> is the
  call \<^verbatim>\<open>cv2.VideoCapture(url, cv2.CAP_FFMPEG)\<close> that creates object \<open>c\<close>, \<open>Read c\<close> is
  \<^verbatim>\<open>cap.read()\<close> and \<open>Release c\<close> is \<^verbatim>\<open>cap.release()\<close> on it.\<close>

datatype effect =
    Open nat
  | SetBufferSize nat
  | Read nat
  | Release nat
  | Log level logmsg
  | Sleep rat

datatype exn = AttributeError | ZeroDivisionError | TypeError

record env =
  is_opened :: bool
  open_ok :: bool
  t_connect :: rat
  ret :: bool
  frame :: "ndarray option"
  conv_ok :: bool
  t_stamp :: rat

text \<open>
  The fields of \<open>env\<close>, in the order the code consults them:
  \<^item> \<open>is_opened\<close>: the answer of \<^verbatim>\<open>self.cap.isOpened()\<close> on an existing capture (line 45);
  \<^item> \<open>open_ok\<close>: the answer of \<^verbatim>\<open>self.cap.isOpened()\<close> on the new capture (line 52);
  \<^item> \<open>t_connect\<close>: the reading of \<^verbatim>\<open>time.time()\<close> at line 67;
  \<^item> \<open>ret\<close>, \<open>frame\<close>: the pair returned by \<^verbatim>\<open>self.cap.read()\<close> (line 100);
  \<^item> \<open>conv_ok\<close>: whether lines 125 and 126 (colour conversion and wrapping) return
    rather than raise;
  \<^item> \<open>t_stamp\<close>: the reading of \<^verbatim>\<open>time.time()\<close> at line 85 or line 128.
\<close>

subsection \<open>The track object\<close>

text \<open>The attributes set by \<^verbatim>\<open>__init__\<close>. \<open>next_cap\<close> is not an attribute: it counts
  the capture objects constructed so far and names the next one.\<close>

record track =
  cap :: "nat option"
  frame_counter :: nat
  start_time :: "rat option"
  last_frame_time :: rat
  target_fps :: nat
  placeholder_frame :: "video_frame option"
  frame_width :: nat
  frame_height :: nat
  consecutive_read_failures :: nat
  max_consecutive_read_failures :: nat
  next_cap :: nat

definition init :: track where
  "init = \<lparr>cap = None, frame_counter = 0, start_time = None, last_frame_time = 0,
           target_fps = 15, placeholder_frame = None, frame_width = 640,
           frame_height = 480, consecutive_read_failures = 0,
           max_consecutive_read_failures = 10, next_cap = 0\<rparr>"

type_synonym outcome = "(exn + video_frame) \<times> track \<times> effect list"

subsection \<open>\<^verbatim>\<open>_ensure_capture_started\<close>\<close>

definition ensure_capture_started :: "env \<Rightarrow> track \<Rightarrow> bool \<times> track \<times> effect list" where
  "ensure_capture_started e s =
     (if cap s \<noteq> None \<and> is_opened e then (True, s, [])
      else
        let c = next_cap s;
            s1 = s\<lparr>cap := Some c, next_cap := Suc c\<rparr>
        in if open_ok e then
             let s2 = s1\<lparr>consecutive_read_failures := 0\<rparr>;
                 s3 = (if start_time s2 = None then s2\<lparr>start_time := Some (t_connect e)\<rparr>
                       else s2)
             in (True, s3,
                 [Log INFO Connecting, Open c, SetBufferSize c,
                  Log INFO (Connected (frame_width s3) (frame_height s3))])
           else
             (False, s1\<lparr>cap := None\<rparr>,
              [Log INFO Connecting, Open c, Log ERROR CouldNotOpen, Release c]))"

subsection \<open>\<^verbatim>\<open>_create_black_frame\<close>\<close>

text \<open>Reading \<^verbatim>\<open>self._start_time\<close> right after the statement
  \<^verbatim>\<open>if self._start_time is None: self._start_time = current_time\<close>; the attribute is set
  there, so the first case is never taken.\<close>

definition start_time_of :: "rat \<Rightarrow> track \<Rightarrow> rat" where
  "start_time_of current_time s =
     (case start_time s of None \<Rightarrow> current_time | Some t \<Rightarrow> t)"

definition create_black_frame :: "rat \<Rightarrow> track \<Rightarrow> video_frame \<times> track" where
  "create_black_frame current_time s =
     (let p = (case placeholder_frame s of
                 None \<Rightarrow> from_ndarray (cvtColor (np_zeros (frame_height s) (frame_width s) 3))
               | Some q \<Rightarrow> q);
          s1 = s\<lparr>placeholder_frame := Some p\<rparr>;
          s2 = (if start_time s1 = None then s1\<lparr>start_time := Some current_time\<rparr> else s1);
          elapsed_time = fl (current_time - start_time_of current_time s2);
          p' = p\<lparr>pts := Some (py_int (fl (elapsed_time * 90000))),
                 time_base := Some (1 / 90000)\<rparr>
      in (p', s2\<lparr>placeholder_frame := Some p'\<rparr>))"

subsection \<open>\<^verbatim>\<open>recv\<close>\<close>

text \<open>\<^verbatim>\<open>await asyncio.sleep(1.0 / self.target_fps)\<close>: the division raises when the
  attribute is zero.\<close>

definition pace :: "track \<Rightarrow> exn + effect" where
  "pace s = (if target_fps s = 0 then Inl ZeroDivisionError
             else Inr (Sleep (fl (1 / of_nat (target_fps s)))))"

text \<open>The pair of statements \<^verbatim>\<open>await asyncio.sleep(1.0 / self.target_fps)\<close>,
  \<^verbatim>\<open>return self._create_black_frame()\<close>, which ends three branches of \<^verbatim>\<open>recv\<close>.\<close>

definition paced_black_frame :: "rat \<Rightarrow> track \<Rightarrow> effect list \<Rightarrow> outcome" where
  "paced_black_frame now s fx =
     (case pace s of
        Inl x \<Rightarrow> (Inl x, s, fx)
      | Inr sl \<Rightarrow> (case create_black_frame now s of (f, s') \<Rightarrow> (Inr f, s', fx @ [sl])))"

text \<open>Lines 103 to 116: the read did not yield a frame.\<close>

definition read_failed :: "env \<Rightarrow> track \<Rightarrow> effect list \<Rightarrow> outcome" where
  "read_failed e s fx =
     (let n = consecutive_read_failures s + 1;
          s1 = s\<lparr>consecutive_read_failures := n\<rparr>;
          fx1 = fx @ [Log WARNING (ReadFailure n)];
          (s2, fx2) = (case cap s1 of
                         None \<Rightarrow> (s1, fx1)
                       | Some c \<Rightarrow> (s1\<lparr>cap := None\<rparr>, fx1 @ [Release c]));
          fx3 = fx2 @ [Sleep (fl (1 / 10))];
          fx4 = fx3 @ (if n > max_consecutive_read_failures s2
                       then [Log ERROR MaxFailures] else [])
      in paced_black_frame (t_stamp e) s2 fx4)"

text \<open>Lines 119 to 148: a frame was read.\<close>

definition valid_frame :: "ndarray \<Rightarrow> env \<Rightarrow> track \<Rightarrow> effect list \<Rightarrow> outcome" where
  "valid_frame a e s fx =
     (let s1 = s\<lparr>consecutive_read_failures := 0, frame_counter := frame_counter s + 1\<rparr>;
          fx1 = fx @ (if frame_counter s1 mod 100 = 0
                      then [Log DEBUG (SendingFrame (frame_counter s1))] else [])
      in if \<not> conv_ok e then
           paced_black_frame (t_stamp e) s1 (fx1 @ [Log ERROR ProcessingError])
         else
           let video_frame = from_ndarray (cvtColor a);
               current_time = t_stamp e;
               s2 = (if start_time s1 = None then s1\<lparr>start_time := Some current_time\<rparr>
                     else s1);
               elapsed_time = fl (current_time - start_time_of current_time s2);
               vf = video_frame\<lparr>pts := Some (py_int (fl (elapsed_time * 90000))),
                                time_base := Some (1 / 90000)\<rparr>
           in if shape0 a \<noteq> frame_height s2 \<or> shape1 a \<noteq> frame_width s2 then
                (Inr vf,
                 s2\<lparr>frame_height := shape0 a, frame_width := shape1 a,
                    placeholder_frame := None\<rparr>,
                 fx1 @ [Log INFO (DimsUpdated (shape1 a) (shape0 a))])
              else (Inr vf, s2, fx1))"

definition recv :: "env \<Rightarrow> track \<Rightarrow> outcome" where
  "recv e s =
     (case ensure_capture_started e s of
        (started, s1, fx1) \<Rightarrow>
          if \<not> started then
            paced_black_frame (t_stamp e) s1 (fx1 @ [Log WARNING NotStarted])
          else
            (case cap s1 of
               None \<Rightarrow> (Inl AttributeError, s1, fx1)
             | Some c \<Rightarrow>
                 (case frame e of
                    None \<Rightarrow> read_failed e s1 (fx1 @ [Read c])
                  | Some a \<Rightarrow>
                      if \<not> ret e \<or> nd_size a = 0 then read_failed e s1 (fx1 @ [Read c])
                      else valid_frame a e s1 (fx1 @ [Read c]))))"

subsection \<open>\<^verbatim>\<open>stop\<close>\<close>

text \<open>
  Line 151 awaits the value of \<^verbatim>\<open>super().stop()\<close>. That is \<^verbatim>\<open>MediaStreamTrack.stop\<close> of
  the transport library, a plain method (not a coroutine function): it marks the track as
  ended, in an attribute private to that class which no method of \<^verbatim>\<open>RTSPVideoTrack\<close>
  reads, and returns \<^verbatim>\<open>None\<close>. Awaiting \<^verbatim>\<open>None\<close> raises \<^verbatim>\<open>TypeError\<close>.
\<close>

datatype pyval = PyNone

definition super_stop :: pyval where
  "super_stop = PyNone"

definition await :: "pyval \<Rightarrow> exn + unit" where
  "await v = (case v of PyNone \<Rightarrow> Inl TypeError)"

definition stop :: "track \<Rightarrow> (exn + unit) \<times> track \<times> effect list" where
  "stop s =
     (case await super_stop of
        Inl x \<Rightarrow> (Inl x, s, [])
      | Inr u \<Rightarrow>
          (case cap s of
             None \<Rightarrow> (Inr (), s, [Log INFO TrackStopped])
           | Some c \<Rightarrow> (Inr (), s\<lparr>cap := None\<rparr>, [Release c, Log INFO TrackStopped])))"

abbreviation stop_state :: "track \<Rightarrow> track" where
  "stop_state s \<equiv> fst (snd (stop s))"

abbreviation stop_effects :: "track \<Rightarrow> effect list" where
  "stop_effects s \<equiv> snd (snd (stop s))"

subsection \<open>Sequences of calls\<close>

datatype call = Recv env | Stop

fun step :: "call \<Rightarrow> track \<Rightarrow> track \<times> effect list" where
  "step (Recv e) s = snd (recv e s)"
| "step Stop s = snd (stop s)"

fun exec :: "call list \<Rightarrow> track \<Rightarrow> track" where
  "exec [] s = s"
| "exec (c # cs) s = exec cs (fst (step c s))"

fun trace :: "call list \<Rightarrow> track \<Rightarrow> effect list" where
  "trace [] s = []"
| "trace (c # cs) s = snd (step c s) @ trace cs (fst (step c s))"

text \<open>The results of a sequence of \<^verbatim>\<open>recv\<close> calls, in order.\<close>

fun run :: "env list \<Rightarrow> track \<Rightarrow> (exn + video_frame) list" where
  "run [] s = []"
| "run (e # es) s = fst (recv e s) # run es (fst (snd (recv e s)))"

definition frame_pts :: "exn + video_frame \<Rightarrow> int option" where
  "frame_pts r = (case r of Inl x \<Rightarrow> None | Inr f \<Rightarrow> pts f)"

abbreviation recv_result :: "env \<Rightarrow> track \<Rightarrow> exn + video_frame" where
  "recv_result e s \<equiv> fst (recv e s)"

abbreviation recv_state :: "env \<Rightarrow> track \<Rightarrow> track" where
  "recv_state e s \<equiv> fst (snd (recv e s))"

abbreviation recv_effects :: "env \<Rightarrow> track \<Rightarrow> effect list" where
  "recv_effects e s \<equiv> snd (snd (recv e s))"

subsection \<open>Auxiliary notions and sample inputs\<close>

text \<open>A call of \<^verbatim>\<open>_ensure_capture_started\<close> constructs a new capture exactly when there is
  none or the existing one reports that it is not open.\<close>

definition reopens :: "env \<Rightarrow> track \<Rightarrow> bool" where
  "reopens e s = (cap s = None \<or> \<not> is_opened e)"

text \<open>The value of \<^verbatim>\<open>_start_time\<close> after a call of \<^verbatim>\<open>recv\<close>: the old one if there is
  one, else the clock reading of whichever assignment runs first in that call.\<close>

definition epoch_after :: "env \<Rightarrow> track \<Rightarrow> rat" where
  "epoch_after e s =
     (case start_time s of
        Some t \<Rightarrow> t
      | None \<Rightarrow> if reopens e s \<and> open_ok e then t_connect e else t_stamp e)"

definition camera_frame :: ndarray where
  "camera_frame = NdArray 480 640 3 Decoded"

text \<open>The device opens (or stays open) and delivers a 640x480 frame that converts.\<close>

definition live_env :: "rat \<Rightarrow> rat \<Rightarrow> env" where
  "live_env tc ts = \<lparr>is_opened = True, open_ok = True, t_connect = tc, ret = True,
     frame = Some camera_frame, conv_ok = True, t_stamp = ts\<rparr>"

text \<open>The device cannot be opened.\<close>

definition open_fails_env :: "rat \<Rightarrow> env" where
  "open_fails_env ts = \<lparr>is_opened = False, open_ok = False, t_connect = ts, ret = False,
     frame = None, conv_ok = False, t_stamp = ts\<rparr>"

text \<open>The device opens (or stays open), but the read yields nothing.\<close>

definition read_fails_env :: "rat \<Rightarrow> env" where
  "read_fails_env ts = \<lparr>is_opened = True, open_ok = True, t_connect = ts, ret = False,
     frame = None, conv_ok = False, t_stamp = ts\<rparr>"

text \<open>Lines 103 to 116 on a track whose capture is \<open>c\<close>, where the test of line 106
  succeeds.\<close>

definition read_failed_on :: "nat \<Rightarrow> env \<Rightarrow> track \<Rightarrow> effect list \<Rightarrow> outcome" where
  "read_failed_on c e s fx =
     (let n = consecutive_read_failures s + 1;
          s1 = s\<lparr>consecutive_read_failures := n\<rparr>;
          s2 = s1\<lparr>cap := None\<rparr>;
          fx1 = fx @ [Log WARNING (ReadFailure n), Release c, Sleep (fl (1 / 10))];
          fx2 = fx1 @ (if n > max_consecutive_read_failures s2
                       then [Log ERROR MaxFailures] else [])
      in paced_black_frame (t_stamp e) s2 fx2)"

text \<open>The negation of the test at line 102: the read returned a non-empty frame.\<close>

definition read_ok :: "env \<Rightarrow> bool" where
  "read_ok e = (ret e \<and> (case frame e of None \<Rightarrow> False | Some a \<Rightarrow> nd_size a \<noteq> 0))"

abbreviation ensure_started :: "env \<Rightarrow> track \<Rightarrow> bool" where
  "ensure_started e s \<equiv> fst (ensure_capture_started e s)"

abbreviation ensure_state :: "env \<Rightarrow> track \<Rightarrow> track" where
  "ensure_state e s \<equiv> fst (snd (ensure_capture_started e s))"

abbreviation ensure_effects :: "env \<Rightarrow> track \<Rightarrow> effect list" where
  "ensure_effects e s \<equiv> snd (snd (ensure_capture_started e s))"

definition pace_effects :: "track \<Rightarrow> effect list" where
  "pace_effects s = (if target_fps s = 0 then [] else [Sleep (fl (1 / of_nat (target_fps s)))])"

fun is_log :: "effect \<Rightarrow> bool" where
  "is_log (Log l m) = True"
| "is_log x = False"

fun is_device :: "effect \<Rightarrow> bool" where
  "is_device (Log l m) = False"
| "is_device (Sleep d) = False"
| "is_device x = True"

text \<open>The calls on capture objects among the effects, and the effects other than log
  records.\<close>

abbreviation device_calls :: "effect list \<Rightarrow> effect list" where
  "device_calls fx \<equiv> filter is_device fx"

abbreviation unlogged :: "effect list \<Rightarrow> effect list" where
  "unlogged fx \<equiv> filter (\<lambda>x. \<not> is_log x) fx"


text \<open>The cached placeholder, if there is one, has the cached dimensions.\<close>

definition cache_ok :: "track \<Rightarrow> bool" where
  "cache_ok s =
     (case placeholder_frame s of
        None \<Rightarrow> True
      | Some p \<Rightarrow> shape0 (planes p) = frame_height s \<and> shape1 (planes p) = frame_width s)"

definition hd_frame :: ndarray where
  "hd_frame = NdArray 720 1280 3 Decoded"

text \<open>The device opens (or stays open) and delivers a 1280x720 frame that converts.\<close>

definition hd_env :: "rat \<Rightarrow> env" where
  "hd_env ts = \<lparr>is_opened = True, open_ok = True, t_connect = ts, ret = True,
     frame = Some hd_frame, conv_ok = True, t_stamp = ts\<rparr>"

text \<open>The image that \<^verbatim>\<open>_create_black_frame\<close> uses (lines 77 to 82): the cached one if
  there is one, else a new black image of the cached dimensions.\<close>

definition cached_planes :: "track \<Rightarrow> ndarray" where
  "cached_planes s =
     (case placeholder_frame s of
        None \<Rightarrow> cvtColor (np_zeros (frame_height s) (frame_width s) 3)
      | Some q \<Rightarrow> planes q)"


text \<open>The counter is at most 1, and it is 0 while the track holds a capture.\<close>

definition counter_inv :: "track \<Rightarrow> bool" where
  "counter_inv s =
     (consecutive_read_failures s \<le> 1
      \<and> (case cap s of None \<Rightarrow> True | Some c \<Rightarrow> consecutive_read_failures s = 0))"

section \<open>Properties\<close>

lemmas recv_defs = recv_def ensure_capture_started_def read_failed_def valid_frame_def
  paced_black_frame_def pace_def create_black_frame_def from_ndarray_def start_time_of_def

lemmas hd_defs = hd_env_def hd_frame_def

lemmas eval_defs = init_def live_env_def open_fails_env_def read_fails_env_def
  camera_frame_def nd_size_def cvtColor_def np_zeros_def py_int_def frame_pts_def Let_def
  stop_def await_def super_stop_def

subsection \<open>Rounding is monotone\<close>

lemma rne_of_int [simp]: "rne (of_int n) = n"
  by (simp add: rne_def)

lemma rne_floor_le: "\<lfloor>y\<rfloor> \<le> rne y"
  by (simp add: rne_def Let_def)

lemma rne_le_floor_Suc: "rne y \<le> \<lfloor>y\<rfloor> + 1"
  by (simp add: rne_def Let_def)

lemma rne_mono: "x \<le> y \<Longrightarrow> rne x \<le> rne y"
proof -
  assume le: "x \<le> y"
  have fle: "\<lfloor>x\<rfloor> \<le> \<lfloor>y\<rfloor>" using le by (rule floor_mono)
  show ?thesis
  proof (cases "\<lfloor>x\<rfloor> = \<lfloor>y\<rfloor>")
    case True
    then have "x - of_int \<lfloor>x\<rfloor> \<le> y - of_int \<lfloor>y\<rfloor>" using le by simp
    then show ?thesis using True by (auto simp add: rne_def Let_def)
  next
    case False
    with fle have "\<lfloor>x\<rfloor> + 1 \<le> \<lfloor>y\<rfloor>" by simp
    then show ?thesis
      using rne_le_floor_Suc [of x] rne_floor_le [of y] by linarith
  qed
qed

lemma rne_ge: "of_int a \<le> y \<Longrightarrow> a \<le> rne y"
  using rne_mono [of "of_int a" y] by simp

lemma rne_le: "y \<le> of_int b \<Longrightarrow> rne y \<le> b"
  using rne_mono [of y "of_int b"] by simp

lemma rne_minus: "rne (- y) = - rne y"
proof (cases "y = of_int \<lfloor>y\<rfloor>")
  case True
  then obtain n where "y = of_int n" by blast
  then have "- y = of_int (- n)" by simp
  then show ?thesis using \<open>y = of_int n\<close> by (metis rne_of_int)
next
  case False
  then have ni: "y \<notin> \<int>" by (metis Ints_cases floor_of_int)
  have c: "\<lceil>y\<rceil> = \<lfloor>y\<rfloor> + 1" using ni by (simp add: ceiling_altdef False)
  have f: "\<lfloor>- y\<rfloor> = - \<lfloor>y\<rfloor> - 1" using c by (simp add: ceiling_def)
  show ?thesis
    unfolding rne_def Let_def f
    by (auto simp add: algebra_simps) 
qed

lemma ilog2_bounds:
  assumes "0 < x"
  shows "2 powi (ilog2 x) \<le> x \<and> x < 2 powi (ilog2 x + 1)"
proof -
  obtain p q where pq: "quotient_of x = (p, q)" by (cases "quotient_of x")
  then have q: "0 < q" and x: "x = of_int p / of_int q"
    by (simp_all add: quotient_of_denom_pos quotient_of_div)
  from assms x q have p: "0 < p" by (simp add: zero_less_divide_iff)
  let ?bp = "bitlen p" and ?bq = "bitlen q"
  have bp1: "1 \<le> ?bp" and bq1: "1 \<le> ?bq"
    using p q bitlen_eq_zero_iff [of p] bitlen_eq_zero_iff [of q] bitlen_nonneg [of p]
      bitlen_nonneg [of q] by linarith+
  from bitlen_bounds [OF p] have pl: "(2::int) ^ nat (?bp - 1) \<le> p" and pu: "p < 2 ^ nat ?bp"
    by simp_all
  from bitlen_bounds [OF q] have ql: "(2::int) ^ nat (?bq - 1) \<le> q" and qu: "q < 2 ^ nat ?bq"
    by simp_all
  have Pl: "(2::rat) powi (?bp - 1) \<le> of_int p"
  proof -
    have "(of_int ((2::int) ^ nat (?bp - 1)) :: rat) \<le> of_int p" using pl by (rule of_int_le_iff [THEN iffD2])
    then show ?thesis using bp1 by (simp add: power_int_def)
  qed
  have Pu: "of_int p < (2::rat) powi ?bp"
  proof -
    have "(of_int p :: rat) < of_int ((2::int) ^ nat ?bp)" using pu by (rule of_int_less_iff [THEN iffD2])
    then show ?thesis using bp1 by (simp add: power_int_def)
  qed
  have Ql: "(2::rat) powi (?bq - 1) \<le> of_int q"
  proof -
    have "(of_int ((2::int) ^ nat (?bq - 1)) :: rat) \<le> of_int q" using ql by (rule of_int_le_iff [THEN iffD2])
    then show ?thesis using bq1 by (simp add: power_int_def)
  qed
  have Qu: "of_int q < (2::rat) powi ?bq"
  proof -
    have "(of_int q :: rat) < of_int ((2::int) ^ nat ?bq)" using qu by (rule of_int_less_iff [THEN iffD2])
    then show ?thesis using bq1 by (simp add: power_int_def)
  qed
  have qpos: "(0::rat) < of_int q" using q by simp
  have ppos: "(0::rat) < of_int p" using p by simp
  have pw: "(0::rat) < 2 powi k" for k by (simp add: zero_less_power_int)
  let ?d = "?bp - ?bq"
  have up: "x < 2 powi (?d + 1)"
  proof -
    have "x < 2 powi ?bp / of_int q" unfolding x using Pu qpos by (simp add: divide_strict_right_mono)
    also have "\<dots> \<le> 2 powi ?bp / 2 powi (?bq - 1)"
      using Ql pw [of "?bq - 1"] pw [of ?bp] by (simp add: frac_le)
    also have "\<dots> = 2 powi (?d + 1)"
      by (simp add: power_int_diff [symmetric] algebra_simps)
    finally show ?thesis .
  qed
  have lo: "2 powi (?d - 1) \<le> x"
  proof -
    have "(2::rat) powi (?d - 1) = 2 powi (?bp - 1) / 2 powi ?bq"
      by (simp add: power_int_diff [symmetric] algebra_simps)
    also have "\<dots> \<le> of_int p / 2 powi ?bq"
      using Pl pw [of ?bq] by (simp add: divide_right_mono)
    also have "\<dots> \<le> of_int p / of_int q"
      using Qu qpos ppos by (simp add: frac_le)
    finally show ?thesis unfolding x .
  qed
  show ?thesis
  proof (cases "(2::rat) powi ?d \<le> x")
    case True
    then have "ilog2 x = ?d" by (simp add: ilog2_def pq)
    with True up show ?thesis by simp
  next
    case False
    then have "ilog2 x = ?d - 1" by (simp add: ilog2_def pq)
    with False lo show ?thesis by simp
  qed
qed

lemma power_int_two_less_imp: "(2::rat) powi a < 2 powi b \<Longrightarrow> a < b"
  using power_int_increasing [of b a "2::rat"] by (cases "a < b") simp_all

lemma ilog2_mono:
  assumes "0 < x" and "x \<le> y"
  shows "ilog2 x \<le> ilog2 y"
proof -
  from assms have y: "0 < y" by simp
  from ilog2_bounds [OF assms(1)] ilog2_bounds [OF y] assms(2)
  have "(2::rat) powi (ilog2 x) < 2 powi (ilog2 y + 1)" by linarith
  then have "ilog2 x < ilog2 y + 1" by (rule power_int_two_less_imp)
  then show ?thesis by simp
qed

lemma fl_0 [simp]: "fl 0 = 0"
  by (simp add: fl_def)

lemma fl_minus: "fl (- x) = - fl x"
  by (simp add: fl_def Let_def rne_minus)

lemma fl_pos_bounds:
  assumes "0 < x"
  shows "2 powi (ilog2 x) \<le> fl x \<and> fl x \<le> 2 powi (ilog2 x + 1)"
proof -
  let ?e = "ilog2 x"
  let ?u = "(2::rat) powi (?e - 52)"
  have u: "0 < ?u" by (simp add: zero_less_power_int)
  have fl: "fl x = of_int (rne (x / ?u)) * ?u"
    using assms by (simp add: fl_def Let_def)
  have e: "2 powi ?e = of_int (2 ^ 52) * ?u"
    by (simp add: power_int_diff)
  have e1: "2 powi (?e + 1) = of_int (2 ^ 53) * ?u"
    by (simp add: power_int_diff power_int_add)
  from ilog2_bounds [OF assms] have "of_int (2 ^ 52) * ?u \<le> x" and "x \<le> of_int (2 ^ 53) * ?u"
    unfolding e e1 by simp_all
  then have "of_int (2 ^ 52) \<le> x / ?u" and "x / ?u \<le> of_int (2 ^ 53)"
    using u by (simp_all add: pos_le_divide_eq pos_divide_le_eq)
  then have "2 ^ 52 \<le> rne (x / ?u)" and "rne (x / ?u) \<le> 2 ^ 53"
    by (auto intro: rne_ge rne_le)
  then have "(of_int (2 ^ 52) :: rat) \<le> of_int (rne (x / ?u))"
    and "(of_int (rne (x / ?u)) :: rat) \<le> of_int (2 ^ 53)"
    by (simp_all only: of_int_le_iff)
  then have "of_int (2 ^ 52) * ?u \<le> fl x" and "fl x \<le> of_int (2 ^ 53) * ?u"
    unfolding fl using u by (simp_all only: mult_le_cancel_right_pos)
  then show ?thesis unfolding e e1 by simp
qed

lemma fl_pos: "0 < x \<Longrightarrow> 0 < fl x"
proof -
  assume "0 < x"
  then have "2 powi (ilog2 x) \<le> fl x" using fl_pos_bounds [of x] by simp
  moreover have "(0::rat) < 2 powi (ilog2 x)" by (simp add: zero_less_power_int)
  ultimately show ?thesis by linarith
qed

lemma fl_mono_pos:
  assumes "0 < x" and "x \<le> y"
  shows "fl x \<le> fl y"
proof -
  from assms have y: "0 < y" by simp
  have le: "ilog2 x \<le> ilog2 y" using assms by (rule ilog2_mono)
  show ?thesis
  proof (cases "ilog2 x = ilog2 y")
    case True
    let ?u = "(2::rat) powi (ilog2 y - 52)"
    have u: "0 < ?u" by (simp add: zero_less_power_int)
    have "x / ?u \<le> y / ?u" using assms(2) u by (simp add: divide_right_mono)
    then have "rne (x / ?u) \<le> rne (y / ?u)" by (rule rne_mono)
    then have "(of_int (rne (x / ?u)) :: rat) * ?u \<le> of_int (rne (y / ?u)) * ?u"
      using u by (simp only: mult_le_cancel_right_pos of_int_le_iff)
    then show ?thesis using assms(1) y True by (simp add: fl_def Let_def)
  next
    case False
    with le have "ilog2 x + 1 \<le> ilog2 y" by simp
    then have "(2::rat) powi (ilog2 x + 1) \<le> 2 powi (ilog2 y)"
      by (intro power_int_increasing) simp_all
    then show ?thesis
      using fl_pos_bounds [OF assms(1)] fl_pos_bounds [OF y] by linarith
  qed
qed

lemma fl_mono: "x \<le> y \<Longrightarrow> fl x \<le> fl y"
proof -
  assume le: "x \<le> y"
  consider "0 < x" | "x = 0" "y = 0" | "x = 0" "0 < y" | "x < 0" "y < 0" | "x < 0" "0 \<le> y"
    using le by linarith
  then show ?thesis
  proof cases
    case 1
    then show ?thesis using le by (rule fl_mono_pos)
  next
    case 2
    then show ?thesis by simp
  next
    case 3
    then show ?thesis using fl_pos [of y] by simp
  next
    case 4
    then have "0 < - y" and "- y \<le> - x" using le by simp_all
    then have "fl (- y) \<le> fl (- x)" by (rule fl_mono_pos)
    then show ?thesis by (simp add: fl_minus)
  next
    case 5
    then have "0 < fl (- x)" by (intro fl_pos) simp
    then have a: "fl x < 0" by (simp add: fl_minus)
    have "0 \<le> fl y"
    proof (cases "y = 0")
      case True
      then show ?thesis by simp
    next
      case False
      with 5 have "0 < y" by simp
      then show ?thesis using fl_pos [of y] by simp
    qed
    with a show ?thesis by simp
  qed
qed

text \<open>Values on which the operations are exact.\<close>

lemma fl_vals:
  "fl 1 = 1" "fl 6 = 6" "fl 201 = 201" "fl 90000 = 90000" "fl 540000 = 540000"
  "fl 18090000 = 18090000" "fl (3 / 64) = 3 / 64" "fl (16875 / 4) = 16875 / 4"
  by code_simp+

subsection \<open>Stamping\<close>

lemma py_int_mono: "x \<le> y \<Longrightarrow> py_int x \<le> py_int y"
proof -
  assume le: "x \<le> y"
  consider "0 \<le> x" | "x < 0" "0 \<le> y" | "x < 0" "y < 0" by linarith
  then show ?thesis
  proof cases
    case 1
    with le show ?thesis by (simp add: py_int_def floor_mono)
  next
    case 2
    have a: "\<lceil>x\<rceil> \<le> 0" using 2(1) by (simp add: ceiling_le_iff)
    have b: "0 \<le> \<lfloor>y\<rfloor>" using 2(2) by simp
    have "py_int x = \<lceil>x\<rceil>" and "py_int y = \<lfloor>y\<rfloor>" using 2 by (simp_all add: py_int_def)
    then show ?thesis using order_trans [OF a b] by simp
  next
    case 3
    with le show ?thesis by (simp add: py_int_def ceiling_mono)
  qed
qed

lemma recv_target_fps: "target_fps (recv_state e s) = target_fps s"
  by (simp add: recv_defs Let_def split: option.splits)

text \<open>Whatever the device answers, a call of \<^verbatim>\<open>recv\<close> on a track with a non-zero frame
  rate returns a frame stamped against the epoch that the call leaves in the track.\<close>

lemma recv_stamp:
  assumes "target_fps s \<noteq> 0"
  shows "\<exists>f. recv_result e s = Inr f
     \<and> pts f = Some (py_int (fl (fl (t_stamp e - epoch_after e s) * 90000)))
     \<and> time_base f = Some (1 / 90000)
     \<and> start_time (recv_state e s) = Some (epoch_after e s)"
  using assms
  by (auto simp add: recv_defs Let_def epoch_after_def reopens_def split: option.splits)

lemma run_pts_fixed_epoch:
  "target_fps s \<noteq> 0 \<Longrightarrow> start_time s = Some t0 \<Longrightarrow>
   map frame_pts (run es s) = map (\<lambda>e. Some (py_int (fl (fl (t_stamp e - t0) * 90000)))) es"
proof (induction es arbitrary: s)
  case Nil
  then show ?case by simp
next
  case (Cons e es)
  from recv_stamp [OF Cons.prems(1), of e] Cons.prems(2)
  obtain f where f: "recv_result e s = Inr f" "pts f = Some (py_int (fl (fl (t_stamp e - t0) * 90000)))"
    and st: "start_time (recv_state e s) = Some t0"
    by (auto simp: epoch_after_def)
  have fps: "target_fps (recv_state e s) \<noteq> 0"
    using Cons.prems(1) by (simp add: recv_target_fps)
  show ?case
    using Cons.IH [OF fps st] f by (simp add: frame_pts_def)
qed

lemma run_pts:
  assumes "target_fps s \<noteq> 0"
  shows "\<exists>t0. map frame_pts (run es s) = map (\<lambda>e. Some (py_int (fl (fl (t_stamp e - t0) * 90000)))) es"
proof (cases es)
  case Nil
  then show ?thesis by simp
next
  case (Cons e es')
  from recv_stamp [OF assms, of e]
  obtain f where f: "recv_result e s = Inr f"
      "pts f = Some (py_int (fl (fl (t_stamp e - epoch_after e s) * 90000)))"
    and st: "start_time (recv_state e s) = Some (epoch_after e s)"
    by auto
  have fps: "target_fps (recv_state e s) \<noteq> 0"
    using assms by (simp add: recv_target_fps)
  show ?thesis
    using run_pts_fixed_epoch [OF fps st, of es'] f Cons
    by (intro exI [of _ "epoch_after e s"]) (simp add: frame_pts_def)
qed

lemma stamp_mono:
  assumes "a \<le> b"
  shows "py_int (fl (fl (a - t0) * 90000)) \<le> py_int (fl (fl (b - t0) * 90000))"
proof -
  from assms have "fl (a - t0) \<le> fl (b - t0)" by (intro fl_mono) simp
  then have "fl (a - t0) * 90000 \<le> fl (b - t0) * 90000" by simp
  then show ?thesis by (intro py_int_mono fl_mono)
qed

lemma sorted_map_py_int:
  "sorted (map t_stamp es) \<Longrightarrow>
   sorted (map (\<lambda>e. py_int (fl (fl (t_stamp e - t0) * 90000))) es)"
  by (induction es) (auto intro!: stamp_mono)

text \<open>
  Claim C1, as amended. The code has no clamp: the stamp of every frame is the elapsed
  time in ticks, computed in double arithmetic and truncated, and each of these steps is
  monotone. Hence along any sequence of \<^verbatim>\<open>recv\<close> calls on one track whose stamping
  clock readings do not decrease, every call returns a frame with a stamp, and the stamps
  do not decrease (they may repeat).
\<close>

theorem pts_monotone_on_monotone_clock:
  assumes "target_fps s \<noteq> 0" and "sorted (map t_stamp es)"
  shows "\<exists>ps. map frame_pts (run es s) = map Some ps \<and> sorted ps"
proof -
  from run_pts [OF assms(1), of es] obtain t0 where
    r: "map frame_pts (run es s) = map (\<lambda>e. Some (py_int (fl (fl (t_stamp e - t0) * 90000)))) es"
    by blast
  let ?ps = "map (\<lambda>e. py_int (fl (fl (t_stamp e - t0) * 90000))) es"
  have "map frame_pts (run es s) = map Some ?ps" using r by simp
  moreover have "sorted ?ps" using assms(2) by (rule sorted_map_py_int)
  ultimately show ?thesis by blast
qed

theorem pts_monotone_on_monotone_clock_witness:
  "target_fps init \<noteq> 0
   \<and> sorted (map t_stamp [live_env 10 11, live_env 10 11, live_env 10 12])
   \<and> (\<exists>ps. map frame_pts (run [live_env 10 11, live_env 10 11, live_env 10 12] init)
            = map Some ps \<and> sorted ps)"
  using pts_monotone_on_monotone_clock
    [of init "[live_env 10 11, live_env 10 11, live_env 10 12]"]
  by (simp add: init_def live_env_def)

text \<open>
  Claim C1 as stated fails. The device opens at clock reading 10 and delivers three frames,
  stamped at readings 11, 10 and 10: the second stamp is below the first (no clamp to the
  previous stamp plus one), and the third repeats the second.
\<close>

theorem pts_regresses_counterexample:
  "map frame_pts (run [live_env 10 11, live_env 10 10, live_env 10 10] init)
     = [Some 90000, Some 0, Some 0]"
  by (simp add: recv_defs eval_defs fl_vals)

lemma stop_raises: "stop s = (Inl TypeError, s, [])"
  by (simp add: stop_def await_def super_stop_def)

lemma stop_target_fps: "target_fps (stop_state s) = target_fps s"
  by (simp add: stop_raises)

lemma step_target_fps: "target_fps (fst (step c s)) = target_fps s"
  by (cases c) (simp_all add: recv_target_fps stop_target_fps)

lemma exec_target_fps: "target_fps (exec cs s) = target_fps s"
  by (induction cs arbitrary: s) (simp_all add: step_target_fps)

lemma exec_init_target_fps: "target_fps (exec cs init) \<noteq> 0"
  by (simp add: exec_target_fps init_def)

subsection \<open>The stamp of a frame\<close>

text \<open>
  Claim C6, as amended. After any history of calls on a new track, every frame that
  \<^verbatim>\<open>recv\<close> returns, real or placeholder, carries the time base 1/90000 and the stamp
  \<^verbatim>\<open>int((now - epoch) * 90000)\<close> as double arithmetic computes it: the difference is
  rounded to the nearest double, its product with 90000 is rounded to the nearest double,
  and that double is truncated toward zero. The epoch is the one the track holds after the
  call.
\<close>

theorem frame_stamp_is_truncated_double_product:
  "\<exists>f. recv_result e (exec cs init) = Inr f
     \<and> time_base f = Some (1 / 90000)
     \<and> pts f = Some (py_int (fl (fl (t_stamp e - epoch_after e (exec cs init)) * 90000)))
     \<and> start_time (recv_state e (exec cs init)) = Some (epoch_after e (exec cs init))"
  using recv_stamp [OF exec_init_target_fps, of e cs] by blast

text \<open>The witness is a track opened at clock reading 1762000000.0 that stamps a frame a
  little more than 4.6 days later: the exact product is just below 36000001954, the double
  product is 36000001954, and so is the stamp.\<close>

theorem frame_stamp_is_truncated_double_product_witness:
  "\<exists>f. recv_result (live_env 0 (7392041369691063 / 4194304))
          (exec [Recv (live_env 1762000000 1762000000)] init) = Inr f
     \<and> time_base f = Some (1 / 90000)
     \<and> pts f = Some 36000001954
     \<and> start_time (recv_state (live_env 0 (7392041369691063 / 4194304))
          (exec [Recv (live_env 1762000000 1762000000)] init)) = Some 1762000000"
proof -
  have ep: "epoch_after (live_env 0 (7392041369691063 / 4194304))
              (exec [Recv (live_env 1762000000 1762000000)] init) = 1762000000"
    by (simp add: epoch_after_def recv_defs eval_defs)
  have v: "py_int (fl (fl (t_stamp (live_env 0 (7392041369691063 / 4194304)) - 1762000000)
             * 90000)) = 36000001954"
    by code_simp
  show ?thesis
    using frame_stamp_is_truncated_double_product
      [of "live_env 0 (7392041369691063 / 4194304)" "[Recv (live_env 1762000000 1762000000)]"]
    unfolding ep v .
qed

text \<open>
  Claim C6 as stated fails. A track opened at clock reading 1024 and stamping its first
  frame at 1024.046875 has elapsed 4218.75 ticks, and every operation is exact on these
  values; the frame carries 4218, and rounding gives 4219.
\<close>

theorem pts_not_rounded_counterexample:
  "frame_pts (recv_result (live_env 1024 (1024 + 3 / 64)) init) = Some 4218
   \<and> round ((1024 + 3 / 64 - 1024) * 90000 :: rat) = 4219
   \<and> round (fl (fl (1024 + 3 / 64 - 1024) * 90000)) = 4219"
  by (simp add: recv_defs eval_defs fl_vals round_def floor_eq_iff)

subsection \<open>When the epoch is set\<close>

lemma stop_start_time: "start_time (stop_state s) = start_time s"
  by (simp add: stop_raises)

lemma recv_start_time_kept:
  "start_time s = Some t0 \<Longrightarrow> start_time (recv_state e s) = Some t0"
  by (simp add: recv_defs Let_def split: option.splits)

text \<open>
  Claim C3, as amended. A new track has no epoch. After any history of calls, a call of
  \<^verbatim>\<open>recv\<close> leaves the epoch it found if there was one; if there was none, it leaves the
  clock reading of the successful open of that call, and otherwise (no successful open in
  that call) the clock reading at which the returned frame was stamped. \<^verbatim>\<open>stop\<close> does
  not touch the epoch. So the epoch is set once, by the first call of \<^verbatim>\<open>recv\<close>, at the
  first successful open or at the first placeholder if that comes earlier, and later
  successful opens never reset it.
\<close>

theorem epoch_set_once_by_first_open_or_placeholder:
  "start_time init = None
   \<and> start_time (recv_state e (exec cs init))
       = Some (case start_time (exec cs init) of
                 Some t \<Rightarrow> t
               | None \<Rightarrow> if reopens e (exec cs init) \<and> open_ok e then t_connect e else t_stamp e)
   \<and> start_time (stop_state (exec cs init)) = start_time (exec cs init)"
  using recv_stamp [OF exec_init_target_fps, of e cs]
  by (auto simp: epoch_after_def stop_start_time init_def)

theorem epoch_set_once_by_first_open_or_placeholder_witness:
  "start_time init = None
   \<and> start_time (recv_state (live_env 200 201) (exec [Recv (open_fails_env 100)] init)) = Some 100
   \<and> start_time (stop_state (exec [Recv (open_fails_env 100)] init)) = Some 100"
proof -
  have s: "start_time (exec [Recv (open_fails_env 100)] init) = Some 100"
    by (simp add: recv_defs eval_defs)
  show ?thesis
    using epoch_set_once_by_first_open_or_placeholder
      [of "live_env 200 201" "[Recv (open_fails_env 100)]"]
    by (simp only: s option.case) 
qed

text \<open>
  Claim C3 as stated fails. When the first open fails at clock reading 100, the placeholder
  emitted by that call sets the epoch to 100; the first successful open, at reading 200,
  finds it set and leaves it.
\<close>

theorem epoch_set_before_first_open_counterexample:
  "start_time (exec [Recv (open_fails_env 100)] init) = Some 100
   \<and> start_time (exec [Recv (open_fails_env 100), Recv (live_env 200 201)] init) = Some 100"
  by (simp add: recv_defs eval_defs)

subsection \<open>The epoch is written once\<close>

lemma step_start_time_kept:
  "start_time s = Some t0 \<Longrightarrow> start_time (fst (step c s)) = Some t0"
  by (cases c) (simp_all add: recv_start_time_kept stop_start_time)

lemma exec_start_time_kept:
  "start_time s = Some t0 \<Longrightarrow> start_time (exec cs s) = Some t0"
  by (induction cs arbitrary: s) (simp_all add: step_start_time_kept)

text \<open>
  Claim C10. Each of the three assignments to \<^verbatim>\<open>_start_time\<close> (lines 67, 86 and 129) is
  under the test that it is \<^verbatim>\<open>None\<close>. Hence once the epoch has a value, whichever
  assignment gave it, every sequence of \<^verbatim>\<open>recv\<close> and \<^verbatim>\<open>stop\<close> calls leaves that value
  in place, and every frame returned afterwards, real or placeholder, is stamped against
  it: its stamp is \<^verbatim>\<open>int((now - epoch) * 90000)\<close>, computed in double arithmetic from
  that value.
\<close>

theorem epoch_is_write_once:
  assumes "start_time s = Some t0"
  shows "start_time (exec cs s) = Some t0
     \<and> (target_fps s \<noteq> 0 \<longrightarrow>
         (\<exists>f. recv_result e (exec cs s) = Inr f
              \<and> pts f = Some (py_int (fl (fl (t_stamp e - t0) * 90000)))))"
proof -
  have st: "start_time (exec cs s) = Some t0"
    using assms by (rule exec_start_time_kept)
  have "\<exists>f. recv_result e (exec cs s) = Inr f
          \<and> pts f = Some (py_int (fl (fl (t_stamp e - t0) * 90000)))"
    if "target_fps s \<noteq> 0"
  proof -
    from that have "target_fps (exec cs s) \<noteq> 0" by (simp add: exec_target_fps)
    from recv_stamp [OF this, of e] st show ?thesis by (auto simp: epoch_after_def)
  qed
  with st show ?thesis by blast
qed

theorem epoch_is_write_once_witness:
  "start_time (exec [Recv (open_fails_env 100)] init) = Some 100
   \<and> target_fps (exec [Recv (open_fails_env 100)] init) \<noteq> 0
   \<and> start_time (exec [Recv (live_env 200 201), Stop] (exec [Recv (open_fails_env 100)] init))
       = Some 100
   \<and> (\<exists>f. recv_result (live_env 300 301)
             (exec [Recv (live_env 200 201), Stop] (exec [Recv (open_fails_env 100)] init)) = Inr f
          \<and> pts f = Some 18090000)"
proof -
  have s: "start_time (exec [Recv (open_fails_env 100)] init) = Some 100"
    by (simp add: recv_defs eval_defs)
  have fps: "target_fps (exec [Recv (open_fails_env 100)] init) \<noteq> 0"
    unfolding exec_target_fps by (simp add: init_def)
  have v: "py_int (fl (fl (t_stamp (live_env 300 301) - 100) * 90000)) = 18090000"
    by (simp add: live_env_def py_int_def fl_vals)
  show ?thesis
    using epoch_is_write_once [OF s, of "[Recv (live_env 200 201), Stop]" "live_env 300 301"]
      s fps
    unfolding v by blast
qed

subsection \<open>The three paths of \<^verbatim>\<open>recv\<close>\<close>

lemma ensure_started_iff: "ensure_started e s \<longleftrightarrow> (reopens e s \<longrightarrow> open_ok e)"
  by (auto simp add: ensure_capture_started_def reopens_def Let_def)

lemma ensure_cap:
  "cap (ensure_state e s) =
     (if reopens e s then (if open_ok e then Some (next_cap s) else None) else cap s)"
  by (auto simp add: ensure_capture_started_def reopens_def Let_def)

lemma ensure_counter:
  "consecutive_read_failures (ensure_state e s) =
     (if reopens e s \<and> open_ok e then 0 else consecutive_read_failures s)"
  by (auto simp add: ensure_capture_started_def reopens_def Let_def)

lemma recv_not_started:
  "\<not> ensure_started e s \<Longrightarrow>
   recv e s = paced_black_frame (t_stamp e) (ensure_state e s)
                (ensure_effects e s @ [Log WARNING NotStarted])"
  by (cases "ensure_capture_started e s") (simp add: recv_def)

lemma read_failed_on:
  "cap s = Some c \<Longrightarrow> read_failed e s fx = read_failed_on c e s fx"
  by (simp add: read_failed_def read_failed_on_def Let_def)

lemma recv_read_failed:
  "ensure_started e s \<Longrightarrow> \<not> read_ok e \<Longrightarrow> cap (ensure_state e s) = Some c \<Longrightarrow>
   recv e s = read_failed_on c e (ensure_state e s) (ensure_effects e s @ [Read c])"
  by (cases "ensure_capture_started e s")
     (auto simp add: recv_def read_ok_def read_failed_on split: option.splits)

lemma recv_valid:
  "ensure_started e s \<Longrightarrow> read_ok e \<Longrightarrow> cap (ensure_state e s) = Some c \<Longrightarrow>
   frame e = Some a \<Longrightarrow>
   recv e s = valid_frame a e (ensure_state e s) (ensure_effects e s @ [Read c])"
  by (cases "ensure_capture_started e s") (auto simp add: recv_def read_ok_def split: option.splits)

lemma ensure_started_cap: "ensure_started e s \<Longrightarrow> \<exists>c. cap (ensure_state e s) = Some c"
  by (auto simp add: ensure_capture_started_def Let_def split: if_splits)

lemma recv_cases:
  obtains (not_started) "\<not> ensure_started e s" "reopens e s" "\<not> open_ok e"
      "recv e s = paced_black_frame (t_stamp e) (ensure_state e s)
                (ensure_effects e s @ [Log WARNING NotStarted])"
  | (read_failed) c where "ensure_started e s" "\<not> read_ok e" "cap (ensure_state e s) = Some c"
      "recv e s = read_failed_on c e (ensure_state e s) (ensure_effects e s @ [Read c])"
  | (valid) c a where "ensure_started e s" "read_ok e" "cap (ensure_state e s) = Some c"
      "frame e = Some a" "ret e" "nd_size a \<noteq> 0"
      "recv e s = valid_frame a e (ensure_state e s) (ensure_effects e s @ [Read c])"
proof (cases "ensure_started e s")
  case False
  then show ?thesis
    using not_started recv_not_started ensure_started_iff by blast
next
  case True
  then obtain c where c: "cap (ensure_state e s) = Some c"
    using ensure_started_cap by blast
  show ?thesis
  proof (cases "read_ok e")
    case False
    with True c show ?thesis using read_failed recv_read_failed by blast
  next
    case ok: True
    then obtain a where "frame e = Some a" "ret e" "nd_size a \<noteq> 0"
      by (auto simp: read_ok_def split: option.splits)
    with True ok c show ?thesis using valid recv_valid by blast
  qed
qed

lemma paced_counter:
  "consecutive_read_failures (fst (snd (paced_black_frame now s fx))) = consecutive_read_failures s"
  by (simp add: paced_black_frame_def pace_def create_black_frame_def Let_def)

lemma paced_cap: "cap (fst (snd (paced_black_frame now s fx))) = cap s"
  by (simp add: paced_black_frame_def pace_def create_black_frame_def Let_def)

lemma read_failed_counter:
  "consecutive_read_failures (fst (snd (read_failed_on c e s fx))) = consecutive_read_failures s + 1"
  by (simp add: read_failed_on_def Let_def paced_counter)

lemma read_failed_cap: "cap (fst (snd (read_failed_on c e s fx))) = None"
  by (simp add: read_failed_on_def Let_def paced_cap)

lemma valid_frame_counter:
  "consecutive_read_failures (fst (snd (valid_frame a e s fx))) = 0"
  by (simp add: valid_frame_def Let_def paced_counter)

lemma valid_frame_cap: "cap (fst (snd (valid_frame a e s fx))) = cap s"
  by (simp add: valid_frame_def Let_def paced_cap)

lemma recv_counter:
  "consecutive_read_failures (recv_state e s) =
     (if \<not> ensure_started e s then consecutive_read_failures s
      else if read_ok e then 0
      else consecutive_read_failures (ensure_state e s) + 1)"
proof (cases e s rule: recv_cases)
  case not_started
  then show ?thesis by (simp add: paced_counter ensure_counter)
next
  case (read_failed c)
  then show ?thesis by (simp add: read_failed_counter)
next
  case (valid c a)
  then show ?thesis by (simp add: valid_frame_counter)
qed

lemma recv_cap:
  "cap (recv_state e s) =
     (if ensure_started e s \<and> read_ok e then cap (ensure_state e s) else None)"
proof (cases e s rule: recv_cases)
  case not_started
  then show ?thesis by (simp add: paced_cap ensure_cap)
next
  case (read_failed c)
  then show ?thesis by (simp add: read_failed_cap)
next
  case (valid c a)
  then show ?thesis by (simp add: valid_frame_cap)
qed

subsection \<open>The effects of each path\<close>

lemma paced_normal:
  "paced_black_frame now s fx =
     (fst (paced_black_frame now s []), fst (snd (paced_black_frame now s [])),
      fx @ pace_effects s)"
  by (simp add: paced_black_frame_def pace_def pace_effects_def split: prod.splits)

lemma paced_effects: "snd (snd (paced_black_frame now s fx)) = fx @ pace_effects s"
  by (subst paced_normal) simp

lemma read_failed_normal:
  "read_failed_on c e s fx =
     (fst (paced_black_frame (t_stamp e)
             (s\<lparr>consecutive_read_failures := consecutive_read_failures s + 1, cap := None\<rparr>) []),
      fst (snd (paced_black_frame (t_stamp e)
             (s\<lparr>consecutive_read_failures := consecutive_read_failures s + 1, cap := None\<rparr>) [])),
      fx @ [Log WARNING (ReadFailure (consecutive_read_failures s + 1)), Release c, Sleep (fl (1 / 10))]
         @ (if consecutive_read_failures s + 1 > max_consecutive_read_failures s
            then [Log ERROR MaxFailures] else [])
         @ pace_effects s)"
  unfolding read_failed_on_def Let_def
  by (subst paced_normal) (simp add: pace_effects_def)

lemma read_failed_effects:
  "snd (snd (read_failed_on c e s fx)) =
     fx @ [Log WARNING (ReadFailure (consecutive_read_failures s + 1)), Release c, Sleep (fl (1 / 10))]
        @ (if consecutive_read_failures s + 1 > max_consecutive_read_failures s
           then [Log ERROR MaxFailures] else [])
        @ pace_effects s"
  by (subst read_failed_normal) simp

lemma valid_frame_effects:
  "snd (snd (valid_frame a e s fx)) =
     fx @ (if Suc (frame_counter s) mod 100 = 0
           then [Log DEBUG (SendingFrame (Suc (frame_counter s)))] else [])
        @ (if \<not> conv_ok e
           then Log ERROR ProcessingError # pace_effects s
           else if shape0 a \<noteq> frame_height s \<or> shape1 a \<noteq> frame_width s
                then [Log INFO (DimsUpdated (shape1 a) (shape0 a))] else [])"
  by (simp add: valid_frame_def Let_def paced_effects pace_effects_def)

lemma ensure_effects_eq:
  "ensure_effects e s =
     (if reopens e s then
        (if open_ok e
         then [Log INFO Connecting, Open (next_cap s), SetBufferSize (next_cap s),
               Log INFO (Connected (frame_width s) (frame_height s))]
         else [Log INFO Connecting, Open (next_cap s), Log ERROR CouldNotOpen,
               Release (next_cap s)])
      else [])"
  by (auto simp add: ensure_capture_started_def reopens_def Let_def)

lemma recv_effects_prefix: "\<exists>ys. recv_effects e s = ensure_effects e s @ ys"
  by (cases e s rule: recv_cases)
     (simp_all add: paced_effects read_failed_effects valid_frame_effects)

subsection \<open>\<^verbatim>\<open>recv\<close> returns a frame\<close>


lemma ensure_target_fps: "target_fps (ensure_state e s) = target_fps s"
  by (simp add: ensure_capture_started_def Let_def)


lemma valid_frame_conv_fail:
  "\<not> conv_ok e \<Longrightarrow>
   valid_frame a e s fx =
     paced_black_frame (t_stamp e)
       (s\<lparr>consecutive_read_failures := 0, frame_counter := frame_counter s + 1\<rparr>)
       (fx @ (if Suc (frame_counter s) mod 100 = 0
              then [Log DEBUG (SendingFrame (Suc (frame_counter s)))] else [])
           @ [Log ERROR ProcessingError])"
  by (simp add: valid_frame_def Let_def)


lemma valid_frame_conv_ok_dims:
  "conv_ok e \<Longrightarrow>
   frame_height (fst (snd (valid_frame a e s fx))) = shape0 a
   \<and> frame_width (fst (snd (valid_frame a e s fx))) = shape1 a
   \<and> placeholder_frame (fst (snd (valid_frame a e s fx))) =
       (if shape0 a \<noteq> frame_height s \<or> shape1 a \<noteq> frame_width s then None
        else placeholder_frame s)"
  by (simp add: valid_frame_def Let_def)





subsection \<open>The counter of consecutive read failures\<close>

lemma recv_cap_after_failed_open:
  "reopens e s \<Longrightarrow> \<not> open_ok e \<Longrightarrow> cap (recv_state e s) = None"
  by (simp add: recv_cap ensure_started_iff)

lemma failed_opens_keep_counter:
  "cap s = None \<Longrightarrow> \<forall>e \<in> set es. \<not> open_ok e \<Longrightarrow>
   cap (exec (map Recv es) s) = None
   \<and> consecutive_read_failures (exec (map Recv es) s) = consecutive_read_failures s"
proof (induction es arbitrary: s)
  case Nil
  then show ?case by simp
next
  case (Cons e es)
  have r: "reopens e s" using Cons.prems(1) by (simp add: reopens_def)
  have o: "\<not> open_ok e" using Cons.prems(2) by simp
  have c: "cap (recv_state e s) = None" using r o by (rule recv_cap_after_failed_open)
  have k: "consecutive_read_failures (recv_state e s) = consecutive_read_failures s"
    using r o by (simp add: recv_counter ensure_started_iff)
  from Cons.IH [OF c] Cons.prems(2) k show ?case by simp
qed

text \<open>
  Claim C2, as amended. The counter counts failed reads only. In a call of \<^verbatim>\<open>recv\<close>:
  a read that yields a frame leaves the counter at 0; a failed read leaves it one above
  its value at the time of the read (the value after \<^verbatim>\<open>_ensure_capture_started\<close>, which
  is 0 when that call opened a capture); a failed open leaves the counter as it was.
  In particular, when there is no capture and open fails any number of times and then
  succeeds, the counter keeps its earlier value throughout the failures and is 0
  immediately after the successful open.
\<close>

theorem read_failure_counter:
  "(ensure_started e s \<and> read_ok e \<longrightarrow> consecutive_read_failures (recv_state e s) = 0)
   \<and> (ensure_started e s \<and> \<not> read_ok e \<longrightarrow>
        consecutive_read_failures (recv_state e s)
          = consecutive_read_failures (ensure_state e s) + 1)
   \<and> (reopens e s \<and> \<not> open_ok e \<longrightarrow>
        \<not> ensure_started e s
        \<and> consecutive_read_failures (ensure_state e s) = consecutive_read_failures s
        \<and> consecutive_read_failures (recv_state e s) = consecutive_read_failures s)
   \<and> (cap s = None \<and> (\<forall>x \<in> set es. \<not> open_ok x) \<and> open_ok e \<longrightarrow>
        consecutive_read_failures (exec (map Recv es) s) = consecutive_read_failures s
        \<and> ensure_started e (exec (map Recv es) s)
        \<and> consecutive_read_failures (ensure_state e (exec (map Recv es) s)) = 0)"
proof -
  have "consecutive_read_failures (exec (map Recv es) s) = consecutive_read_failures s
        \<and> ensure_started e (exec (map Recv es) s)
        \<and> consecutive_read_failures (ensure_state e (exec (map Recv es) s)) = 0"
    if h: "cap s = None" "\<forall>x \<in> set es. \<not> open_ok x" "open_ok e"
  proof -
    from failed_opens_keep_counter [OF h(1) h(2)]
    have c: "cap (exec (map Recv es) s) = None"
      and k: "consecutive_read_failures (exec (map Recv es) s) = consecutive_read_failures s"
      by simp_all
    from c have "reopens e (exec (map Recv es) s)" by (simp add: reopens_def)
    with h(3) k show ?thesis by (simp add: ensure_counter ensure_started_iff)
  qed
  then show ?thesis
    by (simp add: recv_counter ensure_counter ensure_started_iff)
qed

theorem read_failure_counter_witness:
  "consecutive_read_failures (recv_state (live_env 4 5) (exec [Recv (read_fails_env 3)] init)) = 0
   \<and> consecutive_read_failures (recv_state (read_fails_env 3) init) = 1
   \<and> consecutive_read_failures (recv_state (open_fails_env 4) (exec [Recv (read_fails_env 3)] init)) = 1
   \<and> consecutive_read_failures
        (exec (map Recv [open_fails_env 4, open_fails_env 5]) (exec [Recv (read_fails_env 3)] init)) = 1
   \<and> consecutive_read_failures
        (ensure_state (live_env 6 7)
          (exec (map Recv [open_fails_env 4, open_fails_env 5]) (exec [Recv (read_fails_env 3)] init))) = 0"
proof -
  let ?s = "exec [Recv (read_fails_env 3)] init"
  have s: "?s = \<lparr>cap = None, frame_counter = 0, start_time = Some 3, last_frame_time = 0,
           target_fps = 15, placeholder_frame = Some \<lparr>planes = NdArray 480 640 3 AllZero, pts = Some 0, time_base = Some (1 / 90000)\<rparr>, frame_width = 640,
           frame_height = 480, consecutive_read_failures = 1,
           max_consecutive_read_failures = 10, next_cap = 1\<rparr>"
    by (simp add: recv_defs eval_defs)
  note t1 = read_failure_counter [of "live_env 4 5" ?s "[]"]
  note t2 = read_failure_counter [of "read_fails_env 3" init "[]"]
  note t3 = read_failure_counter [of "open_fails_env 4" ?s "[]"]
  note t4 = read_failure_counter [of "live_env 6 7" ?s "[open_fails_env 4, open_fails_env 5]"]
  have a: "ensure_started (live_env 4 5) ?s \<and> read_ok (live_env 4 5)"
    unfolding s by (simp add: ensure_capture_started_def eval_defs read_ok_def)
  have b: "ensure_started (read_fails_env 3) init \<and> \<not> read_ok (read_fails_env 3)
       \<and> consecutive_read_failures (ensure_state (read_fails_env 3) init) = 0"
    by (simp add: ensure_capture_started_def eval_defs read_ok_def read_fails_env_def)
  have c: "reopens (open_fails_env 4) ?s \<and> \<not> open_ok (open_fails_env 4)
       \<and> consecutive_read_failures ?s = 1"
    unfolding s by (simp add: reopens_def open_fails_env_def)
  have d: "cap ?s = None \<and> (\<forall>x \<in> set [open_fails_env 4, open_fails_env 5]. \<not> open_ok x) \<and> open_ok (live_env 6 7)"
    unfolding s by (simp add: open_fails_env_def live_env_def)
  from t1 a have 1: "consecutive_read_failures (recv_state (live_env 4 5) ?s) = 0" by blast
  from t2 b have 2: "consecutive_read_failures (recv_state (read_fails_env 3) init) = 1" by simp
  from t3 c have 3: "consecutive_read_failures (recv_state (open_fails_env 4) ?s) = 1" by simp
  from t4 c d have 4: "consecutive_read_failures (exec (map Recv [open_fails_env 4, open_fails_env 5]) ?s) = 1
    \<and> consecutive_read_failures (ensure_state (live_env 6 7) (exec (map Recv [open_fails_env 4, open_fails_env 5]) ?s)) = 0"
    by simp
  from 1 2 3 4 show ?thesis by blast
qed

text \<open>
  Claim C2 as stated fails. After three failed opens on a new track the counter is 0,
  not 3.
\<close>

theorem failed_opens_not_counted_counterexample:
  "consecutive_read_failures
     (exec [Recv (open_fails_env 1), Recv (open_fails_env 2), Recv (open_fails_env 3)] init) = 0"
  by (simp add: recv_defs eval_defs)

text \<open>
  A consequence of the reset at every successful open: a failed read discards the capture,
  so the next read comes after a successful open, and the counter never exceeds 1 on a
  track that started as a new one. With the threshold 10 set by \<^verbatim>\<open>__init__\<close> the error
  record of line 113 is therefore never logged.
\<close>

lemma recv_counter_inv: "counter_inv s \<Longrightarrow> counter_inv (recv_state e s)"
  by (auto simp add: counter_inv_def recv_counter recv_cap ensure_counter ensure_cap
        ensure_started_iff reopens_def split: option.splits)

lemma stop_counter_inv: "counter_inv s \<Longrightarrow> counter_inv (stop_state s)"
  by (simp add: stop_raises)

lemma exec_counter_inv: "counter_inv s \<Longrightarrow> counter_inv (exec cs s)"
proof (induction cs arbitrary: s)
  case Nil
  then show ?case by simp
next
  case (Cons c cs)
  have "counter_inv (fst (step c s))"
    using Cons.prems by (cases c) (simp_all add: recv_counter_inv stop_counter_inv)
  then show ?case using Cons.IH by simp
qed

lemma reachable_counter_at_most_one: "consecutive_read_failures (exec cs init) \<le> 1"
  using exec_counter_inv [of init cs] by (simp add: counter_inv_def init_def)

subsection \<open>The threshold\<close>

lemma create_black_frame_threshold:
  "create_black_frame now (s\<lparr>max_consecutive_read_failures := m\<rparr>) =
     (fst (create_black_frame now s),
      (snd (create_black_frame now s))\<lparr>max_consecutive_read_failures := m\<rparr>)"
  by (simp add: create_black_frame_def Let_def start_time_of_def split: option.splits)

lemma paced_threshold:
  "paced_black_frame now (s\<lparr>max_consecutive_read_failures := m\<rparr>) fx =
     (fst (paced_black_frame now s fx),
      (fst (snd (paced_black_frame now s fx)))\<lparr>max_consecutive_read_failures := m\<rparr>,
      snd (snd (paced_black_frame now s fx)))"
  by (simp add: paced_black_frame_def pace_def create_black_frame_threshold split: prod.splits)

lemma ensure_threshold:
  "ensure_capture_started e (s\<lparr>max_consecutive_read_failures := m\<rparr>) =
     (ensure_started e s, (ensure_state e s)\<lparr>max_consecutive_read_failures := m\<rparr>,
      ensure_effects e s)"
  by (simp add: ensure_capture_started_def Let_def)

lemma read_failed_threshold:
  "fst (read_failed_on c e (s\<lparr>max_consecutive_read_failures := m\<rparr>) fx) = fst (read_failed_on c e s fx)
   \<and> fst (snd (read_failed_on c e (s\<lparr>max_consecutive_read_failures := m\<rparr>) fx))
       = (fst (snd (read_failed_on c e s fx)))\<lparr>max_consecutive_read_failures := m\<rparr>
   \<and> unlogged (snd (snd (read_failed_on c e (s\<lparr>max_consecutive_read_failures := m\<rparr>) fx)))
       = unlogged (snd (snd (read_failed_on c e s fx)))"
proof -
  let ?s' = "s\<lparr>consecutive_read_failures := consecutive_read_failures s + 1, cap := None\<rparr>"
  have u: "(s\<lparr>max_consecutive_read_failures := m\<rparr>)
             \<lparr>consecutive_read_failures :=
                consecutive_read_failures (s\<lparr>max_consecutive_read_failures := m\<rparr>) + 1,
              cap := None\<rparr> = ?s'\<lparr>max_consecutive_read_failures := m\<rparr>"
    by simp
  show ?thesis
    by (subst (1 2 3 4 5 6) read_failed_normal) (simp only: u paced_threshold, simp add: pace_effects_def)
qed

lemma valid_frame_threshold:
  "valid_frame a e (s\<lparr>max_consecutive_read_failures := m\<rparr>) fx =
     (fst (valid_frame a e s fx),
      (fst (snd (valid_frame a e s fx)))\<lparr>max_consecutive_read_failures := m\<rparr>,
      snd (snd (valid_frame a e s fx)))"
proof (cases "conv_ok e")
  case False
  have u: "(s\<lparr>max_consecutive_read_failures := m\<rparr>)
             \<lparr>consecutive_read_failures := 0,
              frame_counter := frame_counter (s\<lparr>max_consecutive_read_failures := m\<rparr>) + 1\<rparr>
           = (s\<lparr>consecutive_read_failures := 0, frame_counter := frame_counter s + 1\<rparr>)
               \<lparr>max_consecutive_read_failures := m\<rparr>"
    by simp
  show ?thesis
    unfolding valid_frame_conv_fail [OF False] u paced_threshold by simp
next
  case True
  then show ?thesis
    by (cases "start_time s") (simp_all add: valid_frame_def Let_def start_time_of_def)
qed

lemma recv_threshold:
  "recv_result e (s\<lparr>max_consecutive_read_failures := m\<rparr>) = recv_result e s
   \<and> recv_state e (s\<lparr>max_consecutive_read_failures := m\<rparr>)
       = (recv_state e s)\<lparr>max_consecutive_read_failures := m\<rparr>
   \<and> unlogged (recv_effects e (s\<lparr>max_consecutive_read_failures := m\<rparr>))
       = unlogged (recv_effects e s)"
proof -
  obtain started s1 fx1 where fields: "ensure_capture_started e s = (started, s1, fx1)"
    by (cases "ensure_capture_started e s") auto
  then have en: "ensure_capture_started e (s\<lparr>max_consecutive_read_failures := m\<rparr>)
       = (started, s1\<lparr>max_consecutive_read_failures := m\<rparr>, fx1)"
    by (simp add: ensure_threshold)
  show ?thesis
  proof (cases "cap s1")
    case None
    then show ?thesis
      by (simp add: recv_def fields en paced_threshold)
  next
    case (Some c)
    show ?thesis
    proof (cases "started")
      case False
      then show ?thesis by (simp add: recv_def fields en paced_threshold)
    next
      case True
      show ?thesis
      proof (cases "read_ok e")
        case False
        then have "recv e s = read_failed_on c e s1 (fx1 @ [Read c])"
          and "recv e (s\<lparr>max_consecutive_read_failures := m\<rparr>)
                = read_failed_on c e (s1\<lparr>max_consecutive_read_failures := m\<rparr>) (fx1 @ [Read c])"
          using True Some
          by (auto simp add: recv_def fields en read_ok_def read_failed_on split: option.splits)
        then show ?thesis
          using read_failed_threshold [where c = c and e = e and s = s1 and m = m and fx = "fx1 @ [Read c]"]
          by simp
      next
        case ok: True
        then obtain a where a: "frame e = Some a" "ret e" "nd_size a \<noteq> 0"
          by (auto simp: read_ok_def split: option.splits)
        then have "recv e s = valid_frame a e s1 (fx1 @ [Read c])"
          and "recv e (s\<lparr>max_consecutive_read_failures := m\<rparr>)
                = valid_frame a e (s1\<lparr>max_consecutive_read_failures := m\<rparr>) (fx1 @ [Read c])"
          using True Some by (simp_all add: recv_def fields en)
        then show ?thesis
          by (simp add: valid_frame_threshold)
      qed
    qed
  qed
qed

lemma run_threshold:
  "run es (s\<lparr>max_consecutive_read_failures := m\<rparr>) = run es s"
proof (induction es arbitrary: s)
  case Nil
  then show ?case by simp
next
  case (Cons e es)
  show ?case using Cons.IH [of "recv_state e s"] by (simp add: recv_threshold)
qed

lemma exec_recv_threshold:
  "exec (map Recv es) (s\<lparr>max_consecutive_read_failures := m\<rparr>)
     = (exec (map Recv es) s)\<lparr>max_consecutive_read_failures := m\<rparr>"
proof (induction es arbitrary: s)
  case Nil
  then show ?case by simp
next
  case (Cons e es)
  show ?case using Cons.IH [of "recv_state e s"] by (simp add: recv_threshold)
qed

lemma trace_recv_threshold:
  "unlogged (trace (map Recv es) (s\<lparr>max_consecutive_read_failures := m\<rparr>))
     = unlogged (trace (map Recv es) s)"
proof (induction es arbitrary: s)
  case Nil
  then show ?case by simp
next
  case (Cons e es)
  show ?case using Cons.IH [of "recv_state e s"] by (simp add: recv_threshold)
qed

lemma reopen_attempted:
  "reopens e s \<Longrightarrow> Open (next_cap s) \<in> set (recv_effects e s)"
  using recv_effects_prefix [of e s] by (auto simp add: ensure_effects_eq)

text \<open>
  Claim C7. Replace the threshold of a track by any other value \<open>m\<close>, so that the counter
  exceeds the one where it did not exceed the other. For every sequence of device answers
  the frames returned are the same, the final attributes are the same (but for the
  threshold itself), and the effects other than log records (device calls and sleeps, in
  order) are the same. And the track never gives up: whatever the counter and the
  threshold, a call of \<^verbatim>\<open>recv\<close> on a track without a capture attempts an open.
\<close>

theorem threshold_only_affects_logging:
  "run es (s\<lparr>max_consecutive_read_failures := m\<rparr>) = run es s
   \<and> exec (map Recv es) (s\<lparr>max_consecutive_read_failures := m\<rparr>)
       = (exec (map Recv es) s)\<lparr>max_consecutive_read_failures := m\<rparr>
   \<and> unlogged (trace (map Recv es) (s\<lparr>max_consecutive_read_failures := m\<rparr>))
       = unlogged (trace (map Recv es) s)
   \<and> (cap s = None \<longrightarrow> Open (next_cap s) \<in> set (recv_effects e s))"
  using reopen_attempted [of e s]
  by (simp add: run_threshold exec_recv_threshold trace_recv_threshold reopens_def)

theorem threshold_only_affects_logging_witness:
  "run [read_fails_env 1, live_env 2 3] (init\<lparr>max_consecutive_read_failures := 0\<rparr>)
     = run [read_fails_env 1, live_env 2 3] init
   \<and> exec (map Recv [read_fails_env 1, live_env 2 3]) (init\<lparr>max_consecutive_read_failures := 0\<rparr>)
       = (exec (map Recv [read_fails_env 1, live_env 2 3]) init)\<lparr>max_consecutive_read_failures := 0\<rparr>
   \<and> unlogged (trace (map Recv [read_fails_env 1, live_env 2 3])
                  (init\<lparr>max_consecutive_read_failures := 0\<rparr>))
       = unlogged (trace (map Recv [read_fails_env 1, live_env 2 3]) init)
   \<and> cap init = None
   \<and> Open (next_cap init) \<in> set (recv_effects (open_fails_env 1) init)"
proof -
  have c: "cap init = None" by (simp add: init_def)
  show ?thesis
    using threshold_only_affects_logging
      [where es = "[read_fails_env 1, live_env 2 3]" and s = init and m = 0
         and e = "open_fails_env 1"] c
    by blast
qed

subsection \<open>A failed read discards the capture\<close>

lemma device_calls_pace [simp]: "device_calls (pace_effects s) = []"
  by (simp add: pace_effects_def)














subsection \<open>\<^verbatim>\<open>stop\<close>\<close>

text \<open>
  Claim C9 does not hold of the code. The statements of \<^verbatim>\<open>stop\<close> that release the capture
  and clear the attribute (lines 152 to 154) come after the await of line 151, which raises.
  On a track that holds an open capture, \<^verbatim>\<open>stop\<close> raises \<^verbatim>\<open>TypeError\<close>, releases
  nothing and leaves the capture in the track; the next \<^verbatim>\<open>recv\<close> reads from that same
  capture again.
\<close>

theorem stop_raises_before_release:
  "fst (stop (exec [Recv (live_env 10 11)] init)) = Inl TypeError
   \<and> cap (stop_state (exec [Recv (live_env 10 11)] init)) = Some 0
   \<and> stop_effects (exec [Recv (live_env 10 11)] init) = []
   \<and> device_calls (trace [Recv (live_env 10 11), Stop, Recv (live_env 12 13)] init)
       = [Open 0, SetBufferSize 0, Read 0, Read 0]"
  by (simp add: recv_defs eval_defs fl_vals)

subsection \<open>The placeholder cache\<close>

lemma paced_placeholder:
  assumes "target_fps s \<noteq> 0"
  shows "\<exists>f. fst (paced_black_frame now s fx) = Inr f
     \<and> placeholder_frame (fst (snd (paced_black_frame now s fx))) = Some f
     \<and> planes f = cached_planes s
     \<and> frame_height (fst (snd (paced_black_frame now s fx))) = frame_height s
     \<and> frame_width (fst (snd (paced_black_frame now s fx))) = frame_width s"
  using assms
  by (simp add: paced_black_frame_def pace_def create_black_frame_def Let_def cached_planes_def
        from_ndarray_def split: option.splits)

lemma ensure_cache:
  "placeholder_frame (ensure_state e s) = placeholder_frame s
   \<and> frame_height (ensure_state e s) = frame_height s
   \<and> frame_width (ensure_state e s) = frame_width s"
  by (simp add: ensure_capture_started_def Let_def)

lemma ensure_cached_planes: "cached_planes (ensure_state e s) = cached_planes s"
  by (simp add: cached_planes_def ensure_cache split: option.splits)

lemma recv_placeholder:
  assumes "target_fps s \<noteq> 0" and "\<not> (ensure_started e s \<and> read_ok e \<and> conv_ok e)"
  shows "\<exists>f. recv_result e s = Inr f
     \<and> placeholder_frame (recv_state e s) = Some f
     \<and> planes f = cached_planes s
     \<and> frame_height (recv_state e s) = frame_height s
     \<and> frame_width (recv_state e s) = frame_width s"
proof (cases e s rule: recv_cases)
  case not_started
  show ?thesis
    using paced_placeholder [of "ensure_state e s" "t_stamp e"
        "ensure_effects e s @ [Log WARNING NotStarted]"] assms(1)
    unfolding not_started(4) by (simp add: ensure_target_fps ensure_cache ensure_cached_planes)
next
  case (read_failed c)
  let ?s' = "(ensure_state e s)\<lparr>consecutive_read_failures :=
                consecutive_read_failures (ensure_state e s) + 1, cap := None\<rparr>"
  have cp: "cached_planes ?s' = cached_planes s"
    by (simp add: cached_planes_def ensure_cache split: option.splits)
  show ?thesis
    unfolding read_failed(4)
    apply (subst (1 2 3 4) read_failed_normal)
    using paced_placeholder [of ?s' "t_stamp e" "[]"] assms(1) cp
    by (simp add: ensure_target_fps ensure_cache)
next
  case (valid c a)
  with assms(2) have nc: "\<not> conv_ok e" by simp
  let ?s' = "(ensure_state e s)\<lparr>consecutive_read_failures := 0,
                frame_counter := frame_counter (ensure_state e s) + 1\<rparr>"
  have cp: "cached_planes ?s' = cached_planes s"
    by (simp add: cached_planes_def ensure_cache split: option.splits)
  show ?thesis
    unfolding valid(7) valid_frame_conv_fail [OF nc]
    using paced_placeholder [of ?s' "t_stamp e"] assms(1) cp
    by (simp add: ensure_target_fps ensure_cache)
qed

lemma recv_real_frame:
  assumes "ensure_started e s" and "read_ok e" and "conv_ok e" and "frame e = Some a"
  shows "frame_height (recv_state e s) = shape0 a \<and> frame_width (recv_state e s) = shape1 a
     \<and> placeholder_frame (recv_state e s) =
         (if shape0 a \<noteq> frame_height s \<or> shape1 a \<noteq> frame_width s then None
          else placeholder_frame s)"
proof (cases e s rule: recv_cases)
  case not_started
  with assms show ?thesis by simp
next
  case (read_failed c)
  with assms show ?thesis by simp
next
  case (valid c a')
  with assms(4) have "a' = a" by simp
  then show ?thesis
    unfolding valid(7)
    using valid_frame_conv_ok_dims [OF assms(3), of a "ensure_state e s"]
    by (simp add: ensure_cache)
qed

lemma cached_planes_dims:
  "cache_ok s \<Longrightarrow> shape0 (cached_planes s) = frame_height s \<and> shape1 (cached_planes s) = frame_width s"
  by (simp add: cache_ok_def cached_planes_def cvtColor_def np_zeros_def split: option.splits)

lemma recv_cache_ok:
  assumes "cache_ok s" and "target_fps s \<noteq> 0"
  shows "cache_ok (recv_state e s)"
proof (cases "ensure_started e s \<and> read_ok e \<and> conv_ok e")
  case True
  then obtain a where a: "frame e = Some a"
    by (auto simp: read_ok_def split: option.splits)
  from recv_real_frame [of e s a] True a assms(1) show ?thesis
    by (auto simp add: cache_ok_def split: option.splits)
next
  case False
  from recv_placeholder [OF assms(2) False] cached_planes_dims [OF assms(1)]
  show ?thesis by (auto simp add: cache_ok_def)
qed

lemma stop_cache_ok: "cache_ok (stop_state s) = cache_ok s"
  by (simp add: stop_raises)

lemma exec_cache_ok: "cache_ok s \<Longrightarrow> target_fps s \<noteq> 0 \<Longrightarrow> cache_ok (exec cs s)"
proof (induction cs arbitrary: s)
  case Nil
  then show ?case by simp
next
  case (Cons c cs)
  have "cache_ok (fst (step c s))"
    using Cons.prems by (cases c) (simp_all add: recv_cache_ok stop_cache_ok)
  moreover have "target_fps (fst (step c s)) \<noteq> 0"
    using Cons.prems(2) by (simp add: step_target_fps)
  ultimately show ?case using Cons.IH by simp
qed

lemma init_cache_ok: "cache_ok init"
  by (simp add: cache_ok_def init_def)

text \<open>
  Claim C8. After any history of calls on a new track: a real frame (one that was read and
  converted) sets the cached dimensions to its own and, exactly when they differ from the
  cached ones, drops the cached placeholder; otherwise the cache is kept. Whenever
  \<^verbatim>\<open>recv\<close> returns a placeholder, its image is the cached one if there is one, and a
  new image only if there is none, and in both cases it has the cached dimensions, those
  of the last real frame. So after a change from 640x480 to 1280x720 the next placeholder
  is 1280x720.
\<close>

theorem placeholder_follows_frame_dimensions:
  "(ensure_started e (exec cs init) \<and> read_ok e \<and> conv_ok e \<and> frame e = Some a \<longrightarrow>
      frame_height (recv_state e (exec cs init)) = shape0 a
      \<and> frame_width (recv_state e (exec cs init)) = shape1 a
      \<and> placeholder_frame (recv_state e (exec cs init)) =
          (if shape0 a \<noteq> frame_height (exec cs init) \<or> shape1 a \<noteq> frame_width (exec cs init)
           then None else placeholder_frame (exec cs init)))
   \<and> (\<not> (ensure_started e (exec cs init) \<and> read_ok e \<and> conv_ok e) \<longrightarrow>
        (\<exists>f. recv_result e (exec cs init) = Inr f
            \<and> placeholder_frame (recv_state e (exec cs init)) = Some f
            \<and> planes f = cached_planes (exec cs init)
            \<and> shape0 (planes f) = frame_height (exec cs init)
            \<and> shape1 (planes f) = frame_width (exec cs init)
            \<and> frame_height (recv_state e (exec cs init)) = frame_height (exec cs init)
            \<and> frame_width (recv_state e (exec cs init)) = frame_width (exec cs init)))"
proof -
  let ?s = "exec cs init"
  have fps: "target_fps ?s \<noteq> 0" by (rule exec_init_target_fps)
  have ok: "cache_ok ?s"
    using exec_cache_ok [OF init_cache_ok, of cs] by (simp add: init_def)
  show ?thesis
    using recv_real_frame [of e ?s a] recv_placeholder [OF fps, of e]
      cached_planes_dims [OF ok]
    by auto
qed

theorem placeholder_follows_frame_dimensions_witness:
  "frame_height (exec [Recv (live_env 10 11), Recv (read_fails_env 12)] init) = 480
   \<and> frame_width (exec [Recv (live_env 10 11), Recv (read_fails_env 12)] init) = 640
   \<and> frame_height (exec [Recv (live_env 10 11), Recv (read_fails_env 12), Recv (hd_env 13)] init) = 720
   \<and> frame_width (exec [Recv (live_env 10 11), Recv (read_fails_env 12), Recv (hd_env 13)] init) = 1280
   \<and> placeholder_frame (exec [Recv (live_env 10 11), Recv (read_fails_env 12), Recv (hd_env 13)] init) = None
   \<and> (\<exists>f. recv_result (read_fails_env 14)
              (exec [Recv (live_env 10 11), Recv (read_fails_env 12), Recv (hd_env 13)] init) = Inr f
          \<and> shape0 (planes f) = 720 \<and> shape1 (planes f) = 1280)"
proof -
  let ?cs = "[Recv (live_env 10 11), Recv (read_fails_env 12)]"
  let ?s = "exec ?cs init"
  let ?cs' = "[Recv (live_env 10 11), Recv (read_fails_env 12), Recv (hd_env 13)]"
  have s: "frame_height ?s = 480" "frame_width ?s = 640" "cap ?s = None"
    by (simp_all add: recv_defs eval_defs)
  have e1: "ensure_started (hd_env 13) ?s \<and> read_ok (hd_env 13) \<and> conv_ok (hd_env 13)
      \<and> frame (hd_env 13) = Some hd_frame"
    by (simp add: ensure_started_iff read_ok_def hd_defs nd_size_def)
  have x: "exec ?cs' init = recv_state (hd_env 13) ?s" by simp
  from placeholder_follows_frame_dimensions [of "hd_env 13" ?cs hd_frame] e1 s
  have 1: "frame_height (exec ?cs' init) = 720" "frame_width (exec ?cs' init) = 1280"
    "placeholder_frame (exec ?cs' init) = None"
    unfolding x by (simp_all add: hd_frame_def)
  have e2: "\<not> (ensure_started (read_fails_env 14) (exec ?cs' init) \<and> read_ok (read_fails_env 14)
      \<and> conv_ok (read_fails_env 14))"
    by (simp add: read_fails_env_def)
  from placeholder_follows_frame_dimensions [of "read_fails_env 14" ?cs' hd_frame] e2 1
  have 2: "\<exists>f. recv_result (read_fails_env 14) (exec ?cs' init) = Inr f
          \<and> shape0 (planes f) = 720 \<and> shape1 (planes f) = 1280"
    by auto
  from s 1 2 show ?thesis by blast
qed

end
